theory Spec2Isabelle
  imports Main "HOL-Library.Word"
begin

unbundle bit_operations_syntax

section \<open>Bytes and the sink\<close>

text \<open>
  Python \<open>bytes\<close> are sequences of integers in 0..255: lists of 8-bit words.
  \<open>bytes_of\<close> writes a bytes literal such as \<open>b"Zm9v"\<close> from its characters.
\<close>

type_synonym byte = "8 word"

definition bytes_of :: "string \<Rightarrow> byte list" where
  "bytes_of s = map of_char s"

text \<open>
  The underlying object of a decoder is any object with \<open>write\<close> and, optionally,
  \<open>close\<close> and \<open>finalize\<close>. It is modelled as a recording sink: the
  arguments of the \<open>write\<close> calls in call order, the number of \<open>finalize\<close> and
  \<open>close\<close> calls received, and the two capabilities that \<open>hasattr\<close> tests.
\<close>

record sink =
  written :: "byte list list"
  finalize_calls :: nat
  close_calls :: nat
  has_finalize :: bool
  has_close :: bool

definition new_sink :: "bool \<Rightarrow> bool \<Rightarrow> sink" where
  "new_sink hf hc =
     \<lparr>written = [], finalize_calls = 0, close_calls = 0, has_finalize = hf, has_close = hc\<rparr>"

definition sink_write :: "sink \<Rightarrow> byte list \<Rightarrow> sink" where
  "sink_write s b = s\<lparr>written := written s @ [b]\<rparr>"

definition sink_finalize :: "sink \<Rightarrow> sink" where
  "sink_finalize s = s\<lparr>finalize_calls := Suc (finalize_calls s)\<rparr>"

definition sink_close :: "sink \<Rightarrow> sink" where
  "sink_close s = s\<lparr>close_calls := Suc (close_calls s)\<rparr>"

text \<open>All bytes the sink has received, in order.\<close>

definition forwarded :: "sink \<Rightarrow> byte list" where
  "forwarded s = concat (written s)"

section \<open>The library decoders the module calls\<close>

subsection \<open>\<open>base64.b64decode\<close>\<close>

text \<open>
  \<open>base64.b64decode(s)\<close> with the default \<open>validate=False\<close> is
  \<open>binascii.a2b_base64\<close> in its non-strict mode. The model follows the loop of
  CPython's \<open>binascii_a2b_base64_impl\<close>: \<open>quad_pos\<close>, \<open>leftchar\<close> and
  \<open>pads\<close> are its local variables, \<open>bin\<close> the output written so far. A byte outside
  the alphabet is skipped; a pad ends the input once it completes a quad that holds at
  least two data characters; input that ends inside a quad raises \<open>binascii.Error\<close>.
\<close>

datatype binascii_error = InvalidLength | IncorrectPadding

definition BASE64_PAD :: byte where
  "BASE64_PAD = 61"

text \<open>The 256-entry table \<open>table_a2b_base64\<close>; 255 is its entry \<open>-1\<close>.\<close>

definition table_a2b_base64 :: "byte \<Rightarrow> byte" where
  "table_a2b_base64 c =
     (if 65 \<le> c \<and> c \<le> 90 then c - 65
      else if 97 \<le> c \<and> c \<le> 122 then c - 71
      else if 48 \<le> c \<and> c \<le> 57 then c + 4
      else if c = 43 then 62
      else if c = 47 then 63
      else if c = 61 then 0
      else 255)"

fun a2b_loop :: "nat \<Rightarrow> byte \<Rightarrow> nat \<Rightarrow> byte list \<Rightarrow> byte list \<Rightarrow> binascii_error + byte list" where
  "a2b_loop quad_pos leftchar pads bin [] =
     (if quad_pos \<noteq> 0
      then (if quad_pos = 1 then Inl InvalidLength else Inl IncorrectPadding)
      else Inr bin)"
| "a2b_loop quad_pos leftchar pads bin (this_ch # rest) =
     (if this_ch = BASE64_PAD then
        (if quad_pos \<ge> 2 then
           (if quad_pos + (pads + 1) \<ge> 4 then Inr bin
            else a2b_loop quad_pos leftchar (pads + 1) bin rest)
         else a2b_loop quad_pos leftchar pads bin rest)
      else if table_a2b_base64 this_ch \<ge> 64 then a2b_loop quad_pos leftchar pads bin rest
      else if quad_pos = 0 then
        a2b_loop 1 (table_a2b_base64 this_ch) 0 bin rest
      else if quad_pos = 1 then
        a2b_loop 2 (table_a2b_base64 this_ch AND 15) 0
          (bin @ [push_bit 2 leftchar OR drop_bit 4 (table_a2b_base64 this_ch)]) rest
      else if quad_pos = 2 then
        a2b_loop 3 (table_a2b_base64 this_ch AND 3) 0
          (bin @ [push_bit 4 leftchar OR drop_bit 2 (table_a2b_base64 this_ch)]) rest
      else
        a2b_loop 0 0 0 (bin @ [push_bit 6 leftchar OR table_a2b_base64 this_ch]) rest)"

definition b64decode :: "byte list \<Rightarrow> binascii_error + byte list" where
  "b64decode s = a2b_loop 0 0 0 [] s"

subsection \<open>\<open>base64.b64encode\<close>\<close>

text \<open>
  The standard Base64 encoding (RFC 4648, \<open>binascii.b2a_base64\<close> without the
  newline), used to state the round trip: three bytes give four characters of the
  alphabet \<open>table_b2a_base64\<close>, one character per six bits; a last group of one or
  two bytes is filled with zero bits and padded with \<open>=\<close> to four characters.
\<close>

definition table_b2a_base64 :: "byte list" where
  "table_b2a_base64 =
     bytes_of ''ABCDEFGHIJKLMNOPQRSTUVWXYZabcdefghijklmnopqrstuvwxyz0123456789+/''"

definition b2a :: "byte \<Rightarrow> byte" where
  "b2a v = table_b2a_base64 ! unat v"

definition sextet1 :: "byte \<Rightarrow> byte" where
  "sextet1 a = drop_bit 2 a"

definition sextet2 :: "byte \<Rightarrow> byte \<Rightarrow> byte" where
  "sextet2 a b = push_bit 4 (a AND 3) OR drop_bit 4 b"

definition sextet3 :: "byte \<Rightarrow> byte \<Rightarrow> byte" where
  "sextet3 b c = push_bit 2 (b AND 15) OR drop_bit 6 c"

definition sextet4 :: "byte \<Rightarrow> byte" where
  "sextet4 c = c AND 63"

fun b64encode :: "byte list \<Rightarrow> byte list" where
  "b64encode (a # b # c # rest) =
     [b2a (sextet1 a), b2a (sextet2 a b), b2a (sextet3 b c), b2a (sextet4 c)] @ b64encode rest"
| "b64encode [a, b] =
     [b2a (sextet1 a), b2a (sextet2 a b), b2a (sextet3 b 0), BASE64_PAD]"
| "b64encode [a] =
     [b2a (sextet1 a), b2a (sextet2 a 0), BASE64_PAD, BASE64_PAD]"
| "b64encode [] = []"

section \<open>Base64Decoder\<close>

text \<open>
  Both decoder classes have the same two fields, \<open>cache\<close> and \<open>underlying\<close>.
\<close>

record decoder =
  cache :: "byte list"
  underlying :: sink

datatype error = DecodeError

definition Base64Decoder_init :: "sink \<Rightarrow> decoder" where
  "Base64Decoder_init u = \<lparr>cache = [], underlying = u\<rparr>"

text \<open>
  \<open>write\<close> returns the decoder as the call leaves it, together with the raised
  error or the returned integer. The statements are taken in source order: the local
  \<open>data\<close> is rebound to cache plus input, the prefix is decoded (raising before anything
  is forwarded), the decoded bytes are forwarded, and only then is the cache replaced.
  \<open>data[-remaining_len:]\<close> with \<open>remaining_len > 0\<close> is the last
  \<open>remaining_len\<close> bytes of \<open>data\<close>.
\<close>

definition Base64Decoder_write :: "decoder \<Rightarrow> byte list \<Rightarrow> decoder \<times> (error + nat)" where
  "Base64Decoder_write self data0 =
     (let data = (if length (cache self) > 0 then cache self @ data0 else data0);
          decode_len = (length data div 4) * 4;
          val = take decode_len data;
          forwarding =
            (if length val > 0 then
               (case b64decode val of
                  Inl e \<Rightarrow> Inl DecodeError
                | Inr decoded \<Rightarrow>
                    Inr (self\<lparr>underlying := sink_write (underlying self) decoded\<rparr>))
             else Inr self)
      in case forwarding of
           Inl e \<Rightarrow> (self, Inl e)
         | Inr self1 \<Rightarrow>
             (let remaining_len = length data mod 4;
                  self2 = (if remaining_len > 0
                           then self1\<lparr>cache := drop (length data - remaining_len) data\<rparr>
                           else self1\<lparr>cache := []\<rparr>)
              in (self2, Inr (length data))))"

definition Base64Decoder_close :: "decoder \<Rightarrow> decoder" where
  "Base64Decoder_close self =
     (if has_close (underlying self)
      then self\<lparr>underlying := sink_close (underlying self)\<rparr>
      else self)"

definition Base64Decoder_finalize :: "decoder \<Rightarrow> decoder \<times> (error + unit)" where
  "Base64Decoder_finalize self =
     (if length (cache self) > 0 then (self, Inl DecodeError)
      else if has_finalize (underlying self)
      then (self\<lparr>underlying := sink_finalize (underlying self)\<rparr>, Inr ())
      else (self, Inr ()))"

text \<open>
  A caller feeding a list of chunks, one \<open>write\<close> call each; the first raised error
  ends the run, as the exception would. \<open>Base64Decoder_stream\<close> then calls
  \<open>finalize\<close>.
\<close>

fun Base64Decoder_writes :: "decoder \<Rightarrow> byte list list \<Rightarrow> error + decoder" where
  "Base64Decoder_writes self [] = Inr self"
| "Base64Decoder_writes self (chunk # chunks) =
     (case Base64Decoder_write self chunk of
        (self', Inl e) \<Rightarrow> Inl e
      | (self', Inr n) \<Rightarrow> Base64Decoder_writes self' chunks)"

definition Base64Decoder_stream :: "decoder \<Rightarrow> byte list list \<Rightarrow> error + decoder" where
  "Base64Decoder_stream self chunks =
     (case Base64Decoder_writes self chunks of
        Inl e \<Rightarrow> Inl e
      | Inr self' \<Rightarrow>
          (case Base64Decoder_finalize self' of
             (self'', Inl e) \<Rightarrow> Inl e
           | (self'', Inr u) \<Rightarrow> Inr self''))"

text \<open>
  The decodable prefix of a write call, in the words of the specification: the cache
  followed by the new data, cut to a multiple of four bytes (the \<open>val\<close> of
  \<open>write\<close>). \<open>b64_alphabet\<close> holds of the 64 characters that stand for a value.
\<close>

definition decodable_prefix :: "decoder \<Rightarrow> byte list \<Rightarrow> byte list" where
  "decodable_prefix self data = take (length (cache self @ data) div 4 * 4) (cache self @ data)"

definition b64_alphabet :: "byte \<Rightarrow> bool" where
  "b64_alphabet c = (c \<noteq> BASE64_PAD \<and> table_a2b_base64 c < 64)"

section \<open>QuotedPrintableDecoder\<close>

subsection \<open>\<open>binascii.a2b_qp\<close>\<close>

text \<open>
  The loop of CPython's \<open>binascii_a2b_qp_impl\<close> with \<open>header=False\<close>, on the
  input from the index \<open>in\<close> onwards. After \<open>=\<close>: at the end of the input nothing
  is written; a line feed is a soft line break; a carriage return skips to and over the
  next line feed; a second \<open>=\<close> writes one \<open>=\<close>; two hexadecimal digits write
  the byte they denote; anything else writes the \<open>=\<close> itself and goes on with the
  byte after it.
\<close>

definition is_hex :: "byte \<Rightarrow> bool" where
  "is_hex c = ((65 \<le> c \<and> c \<le> 70) \<or> (97 \<le> c \<and> c \<le> 102) \<or> (48 \<le> c \<and> c \<le> 57))"

text \<open>\<open>_PyLong_DigitValue\<close>: 37 for a byte that is no digit in any base up to 36.\<close>

definition DigitValue :: "byte \<Rightarrow> byte" where
  "DigitValue c =
     (if 48 \<le> c \<and> c \<le> 57 then c - 48
      else if 97 \<le> c \<and> c \<le> 122 then c - 87
      else if 65 \<le> c \<and> c \<le> 90 then c - 55
      else 37)"

function a2b_qp :: "byte list \<Rightarrow> byte list" where
  "a2b_qp [] = []"
| "a2b_qp (c # rest) =
     (if c = 61 then
        (case rest of
           [] \<Rightarrow> []
         | d # rest' \<Rightarrow>
             if d = 10 \<or> d = 13 then
               (if d \<noteq> 10 then a2b_qp (drop 1 (dropWhile (\<lambda>x. x \<noteq> 10) rest))
                else a2b_qp rest')
             else if d = 61 then 61 # a2b_qp rest'
             else if rest' \<noteq> [] \<and> is_hex d \<and> is_hex (hd rest') then
               (push_bit 4 (DigitValue d) OR DigitValue (hd rest')) # a2b_qp (tl rest')
             else 61 # a2b_qp rest)
      else c # a2b_qp rest)"
  by pat_completeness auto
termination
proof (relation "measure length")
  fix c :: byte and rest :: "byte list" and d rest'
  assume "rest = d # rest'"
  have "length (dropWhile (\<lambda>x. x \<noteq> 10) rest) \<le> length rest"
    by (rule length_dropWhile_le)
  then show "(drop 1 (dropWhile (\<lambda>x. x \<noteq> 10) rest), c # rest) \<in> measure length"
    by simp
qed auto

definition QuotedPrintableDecoder_init :: "sink \<Rightarrow> decoder" where
  "QuotedPrintableDecoder_init u = \<lparr>cache = [], underlying = u\<rparr>"

text \<open>
  \<open>data[-2:]\<close> is the last two bytes of \<open>data\<close> (all of it when shorter) and
  \<open>data[:-2]\<close> everything before them; \<open>find\<close> returns -1 exactly when
  \<open>=\<close> does not occur. \<open>a2b_qp\<close> raises nothing, so \<open>write\<close> always returns.
\<close>

definition QuotedPrintableDecoder_write :: "decoder \<Rightarrow> byte list \<Rightarrow> decoder \<times> nat" where
  "QuotedPrintableDecoder_write self data0 =
     (let data = (if length (cache self) > 0 then cache self @ data0 else data0);
          (enc, rest) =
            (if 61 \<in> set (drop (length data - 2) data)
             then (take (length data - 2) data, drop (length data - 2) data)
             else (data, []));
          self1 = (if length enc > 0
                   then self\<lparr>underlying := sink_write (underlying self) (a2b_qp enc)\<rparr>
                   else self)
      in (self1\<lparr>cache := rest\<rparr>, length data))"

definition QuotedPrintableDecoder_close :: "decoder \<Rightarrow> decoder" where
  "QuotedPrintableDecoder_close self =
     (if has_close (underlying self)
      then self\<lparr>underlying := sink_close (underlying self)\<rparr>
      else self)"

definition QuotedPrintableDecoder_finalize :: "decoder \<Rightarrow> decoder" where
  "QuotedPrintableDecoder_finalize self =
     (let self1 = (if length (cache self) > 0
                   then self\<lparr>underlying := sink_write (underlying self) (a2b_qp (cache self)),
                             cache := []\<rparr>
                   else self)
      in if has_finalize (underlying self1)
         then self1\<lparr>underlying := sink_finalize (underlying self1)\<rparr>
         else self1)"

fun QuotedPrintableDecoder_writes :: "decoder \<Rightarrow> byte list list \<Rightarrow> decoder" where
  "QuotedPrintableDecoder_writes self [] = self"
| "QuotedPrintableDecoder_writes self (chunk # chunks) =
     QuotedPrintableDecoder_writes (fst (QuotedPrintableDecoder_write self chunk)) chunks"

definition QuotedPrintableDecoder_stream :: "decoder \<Rightarrow> byte list list \<Rightarrow> decoder" where
  "QuotedPrintableDecoder_stream self chunks =
     QuotedPrintableDecoder_finalize (QuotedPrintableDecoder_writes self chunks)"

section \<open>Base64: decoding what the standard encoder produces\<close>

text \<open>
  Every value below 64 is the table entry of exactly the character that encodes it, and
  that character is not the pad.
\<close>

lemma sextets: "(v :: byte) < 64 \<Longrightarrow> v \<in> set (map of_nat [0..<64])"
proof -
  assume "v < 64"
  then have "unat v < 64" by (simp add: word_less_nat_alt)
  then have "unat v \<in> set [0..<64]" by simp
  then have "of_nat (unat v) \<in> (of_nat ` set [0..<64] :: byte set)"
    by (rule imageI)
  then show ?thesis by simp
qed

lemma table_all: "\<forall>v \<in> set (map of_nat [0..<64] :: byte list). table_a2b_base64 (b2a v) = v \<and> b2a v \<noteq> BASE64_PAD"
  by code_simp

lemma b2a_ok: "v < 64 \<Longrightarrow> table_a2b_base64 (b2a v) = v \<and> b2a v \<noteq> BASE64_PAD"
  using table_all sextets by blast

text \<open>The sextets of a group give its bytes back, bit by bit.\<close>

lemma m3: "(3::byte) = mask 2" and m15: "(15::byte) = mask 4" and m63: "(63::byte) = mask 6"
  by (simp_all add: mask_eq_exp_minus_1)

lemma ss: "Suc (Suc (n - 2)) = (if 2 \<le> n then n else 2)" 
  "4 + (n - 4) = (if 4 \<le> n then n else 4)"
  "Suc (Suc (Suc (Suc (n - 4)))) = (if 4 \<le> n then n else 4)"
  "6 + (n - 6) = (if 6 \<le> n then n else 6)"
  "2 + (n - 2) = (if 2 \<le> n then n else 2)"
   "Suc (Suc (Suc (Suc (Suc (Suc (n - 6)))))) = (if 6 \<le> n then n else 6)"
  by auto

lemmas sextet_defs = sextet1_def sextet2_def sextet3_def sextet4_def

lemma byte1: "push_bit 2 (sextet1 a) OR drop_bit 4 (sextet2 a b) = a"
  unfolding sextet_defs m3
  by (rule bit_word_eqI) (auto simp: bit_simps ss split: if_splits)

lemma byte2: "push_bit 4 (sextet2 a b AND 15) OR drop_bit 2 (sextet3 b c) = b"
  unfolding sextet_defs m3 m15
  by (rule bit_word_eqI) (auto simp: bit_simps ss split: if_splits)

lemma byte3: "push_bit 6 (sextet3 b c AND 3) OR sextet4 c = c"
  unfolding sextet_defs m3 m15 m63
  by (rule bit_word_eqI) (auto simp: bit_simps ss split: if_splits)

lemma lt64: "(v::byte) < 64 \<longleftrightarrow> drop_bit 6 v = 0"
  by (simp add: word_less_nat_alt  drop_bit_eq_div word_eq_iff_unsigned[where ?'a=nat] unat_div div_eq_0_iff)

lemma sextet_lt64: "sextet1 a < 64" "sextet2 a b < 64" "sextet3 b c < 64" "sextet4 c < 64"
  unfolding lt64 sextet_defs m3 m15 m63
  by (rule bit_word_eqI; auto simp: bit_simps ss split: if_splits)+

text \<open>The decoding loop on one character, and on one group of four.\<close>

lemma a2b_loop_data:
  assumes "v < 64"
  shows "a2b_loop 0 l p bin (b2a v # rest) = a2b_loop 1 v 0 bin rest"
    and "a2b_loop 1 l p bin (b2a v # rest) =
           a2b_loop 2 (v AND 15) 0 (bin @ [push_bit 2 l OR drop_bit 4 v]) rest"
    and "a2b_loop 2 l p bin (b2a v # rest) =
           a2b_loop 3 (v AND 3) 0 (bin @ [push_bit 4 l OR drop_bit 2 v]) rest"
    and "a2b_loop 3 l p bin (b2a v # rest) =
           a2b_loop 0 0 0 (bin @ [push_bit 6 l OR v]) rest"
proof -
  have t: "table_a2b_base64 (b2a v) = v" and n: "b2a v \<noteq> BASE64_PAD"
    using b2a_ok [OF assms] by simp_all
  have g: "\<not> 64 \<le> v" using assms by simp
  show "a2b_loop 0 l p bin (b2a v # rest) = a2b_loop 1 v 0 bin rest"
    by (simp add: t n g)
  show "a2b_loop 1 l p bin (b2a v # rest) =
           a2b_loop 2 (v AND 15) 0 (bin @ [push_bit 2 l OR drop_bit 4 v]) rest"
    by (simp add: t n g)
  show "a2b_loop 2 l p bin (b2a v # rest) =
           a2b_loop 3 (v AND 3) 0 (bin @ [push_bit 4 l OR drop_bit 2 v]) rest"
    by (simp add: t n g)
  show "a2b_loop 3 l p bin (b2a v # rest) =
           a2b_loop 0 0 0 (bin @ [push_bit 6 l OR v]) rest"
    by (simp add: t n g)
qed

lemma a2b_loop_pad:
  "a2b_loop 3 l p bin (BASE64_PAD # rest) = Inr bin"
  "a2b_loop 2 l 0 bin (BASE64_PAD # BASE64_PAD # rest) = Inr bin"
  by simp_all

lemma a2b_loop_quad:
  "a2b_loop 0 l p bin (b2a (sextet1 a) # b2a (sextet2 a b) # b2a (sextet3 b c) # b2a (sextet4 c) # rest)
     = a2b_loop 0 0 0 (bin @ [a, b, c]) rest"
  by (simp only: a2b_loop_data sextet_lt64 byte1 byte2 byte3 append_assoc append_Cons append_Nil)

lemma a2b_loop_pad1:
  "a2b_loop 0 l p bin (b2a (sextet1 a) # b2a (sextet2 a b) # b2a (sextet3 b c) # BASE64_PAD # rest)
     = Inr (bin @ [a, b])"
  by (simp only: a2b_loop_data a2b_loop_pad sextet_lt64 byte1 byte2 append_assoc append_Cons append_Nil)

lemma a2b_loop_pad2:
  "a2b_loop 0 l p bin (b2a (sextet1 a) # b2a (sextet2 a b) # BASE64_PAD # BASE64_PAD # rest)
     = Inr (bin @ [a])"
  by (simp only: a2b_loop_data a2b_loop_pad sextet_lt64 byte1 append_assoc append_Cons append_Nil)

lemma a2b_loop_b64encode: "a2b_loop 0 0 0 bin (b64encode B) = Inr (bin @ B)"
proof (induction B arbitrary: bin rule: b64encode.induct)
  case (1 a b c rest)
  show ?case
    by (simp add: a2b_loop_quad "1.IH" del: a2b_loop.simps)
next
  case (2 a b)
  show ?case
    by (simp add: a2b_loop_pad1 del: a2b_loop.simps)
next
  case (3 a)
  show ?case
    by (simp add: a2b_loop_pad2 del: a2b_loop.simps)
next
  case 4
  show ?case by simp
qed

lemma b64decode_b64encode: "b64decode (b64encode B) = Inr B"
  by (simp add: b64decode_def a2b_loop_b64encode)

lemma length_b64encode: "length (b64encode B) mod 4 = 0"
  by (induction B rule: b64encode.induct) (simp_all add: mod_Suc)

text \<open>Cutting the encoding at a multiple of four characters cuts the bytes at the same multiple of three.\<close>

lemma take4: "take (4 + n) (a # b # c # d # xs) = a # b # c # d # take n xs"
  and drop4: "drop (4 + n) (a # b # c # d # xs) = drop n xs"
  and take3: "take (3 + n) (a # b # c # xs) = a # b # c # take n xs"
  and drop3: "drop (3 + n) (a # b # c # xs) = drop n xs"
  by (simp_all add: numeral_eq_Suc)

lemma take_b64encode: "take (4 * k) (b64encode B) = b64encode (take (3 * k) B)"
proof (induction k arbitrary: B)
  case 0
  show ?case by simp
next
  case (Suc k)
  show ?case
  proof (cases B rule: b64encode.cases)
    case (1 a b c rest)
    then show ?thesis using Suc.IH [of rest] by (simp add: take4 take3)
  qed simp_all
qed

lemma drop_b64encode: "drop (4 * k) (b64encode B) = b64encode (drop (3 * k) B)"
proof (induction k arbitrary: B)
  case 0
  show ?case by simp
next
  case (Suc k)
  show ?case
  proof (cases B rule: b64encode.cases)
    case (1 a b c rest)
    then show ?thesis using Suc.IH [of rest] by (simp add: drop4 drop3)
  qed simp_all
qed


lemma b64encode_Nil_iff: "b64encode B = [] \<longleftrightarrow> B = []"
  by (cases B rule: b64encode.cases) simp_all

lemma b64decode_Nil: "b64decode [] = Inr []"
  by (simp add: b64decode_def)

lemma forwarded_sink_write: "forwarded (sink_write s b) = forwarded s @ b"
  by (simp add: forwarded_def sink_write_def)

section \<open>Base64Decoder: a write call in one equation\<close>

lemma drop_remaining:
  "drop (length d - length d mod 4) d = drop (length d div 4 * 4) d"
  "length d mod 4 = 0 \<Longrightarrow> drop (length d div 4 * 4) d = []"
  by (simp_all add: minus_mod_eq_div_mult [symmetric])

lemma Base64Decoder_write_eq:
  "Base64Decoder_write self data =
     (case b64decode (take (length (cache self @ data) div 4 * 4) (cache self @ data)) of
        Inl e \<Rightarrow> (self, Inl DecodeError)
      | Inr out \<Rightarrow>
          (\<lparr>cache = drop (length (cache self @ data) div 4 * 4) (cache self @ data),
            underlying =
              (if take (length (cache self @ data) div 4 * 4) (cache self @ data) = []
               then underlying self else sink_write (underlying self) out)\<rparr>,
           Inr (length (cache self @ data))))"
proof -
  define dd where "dd = cache self @ data"
  define vv where "vv = take (length dd div 4 * 4) dd"
  have d: "(if length (cache self) > 0 then cache self @ data else data) = dd"
    by (simp add: dd_def)
  have "Base64Decoder_write self data =
     (case b64decode vv of
        Inl e \<Rightarrow> (self, Inl DecodeError)
      | Inr out \<Rightarrow>
          (\<lparr>cache = drop (length dd div 4 * 4) dd,
            underlying = (if vv = [] then underlying self else sink_write (underlying self) out)\<rparr>,
           Inr (length dd)))"
    unfolding Base64Decoder_write_def d Let_def vv_def [symmetric]
    by (cases "b64decode vv"; cases "vv = []")
       (auto simp: drop_remaining b64decode_Nil)
  then show ?thesis by (simp only: dd_def vv_def)
qed

lemma Base64Decoder_write_Inr:
  assumes "b64decode (take (length (cache self @ data) div 4 * 4) (cache self @ data)) = Inr out"
  shows "\<exists>self'. Base64Decoder_write self data = (self', Inr (length (cache self) + length data))
           \<and> cache self' = drop (length (cache self @ data) div 4 * 4) (cache self @ data)
           \<and> forwarded (underlying self') = forwarded (underlying self) @ out
           \<and> has_finalize (underlying self') = has_finalize (underlying self)"
proof -
  define dd where "dd = cache self @ data"
  define vv where "vv = take (length dd div 4 * 4) dd"
  have l: "length (cache self) + length data = length dd" by (simp add: dd_def)
  have a: "b64decode vv = Inr out"
    using assms by (simp only: dd_def vv_def)
  then have o: "vv = [] \<Longrightarrow> out = []"
    by (simp add: b64decode_Nil)
  show ?thesis
    using a o unfolding Base64Decoder_write_eq dd_def [symmetric] l vv_def [symmetric]
    by (auto simp: forwarded_sink_write sink_write_def forwarded_def)
qed

text \<open>Feeding the rest of an encoding to a decoder whose cache holds its start.\<close>

lemma Base64Decoder_writes_b64encode:
  assumes "cache self @ concat chunks = b64encode B" and "length (cache self) < 4"
  shows "\<exists>self'. Base64Decoder_writes self chunks = Inr self' \<and> cache self' = []
           \<and> forwarded (underlying self') = forwarded (underlying self) @ B
           \<and> has_finalize (underlying self') = has_finalize (underlying self)"
  using assms
proof (induction chunks arbitrary: self B)
  case Nil
  then have "length (b64encode B) < 4" by simp
  with length_b64encode [of B] have "b64encode B = []" by simp
  with Nil show ?case by (simp add: b64encode_Nil_iff)
next
  case (Cons d ds)
  let ?data = "cache self @ d"
  let ?k = "length ?data div 4"
  have le: "4 * ?k \<le> length ?data" by simp
  have "take (4 * ?k) ?data = take (4 * ?k) (?data @ concat ds)"
    using le by simp
  also have "\<dots> = b64encode (take (3 * ?k) B)"
    using Cons.prems(1) by (simp add: take_b64encode)
  finally have val: "take (?k * 4) ?data = b64encode (take (3 * ?k) B)"
    by (simp add: mult.commute)
  then have "b64decode (take (?k * 4) ?data) = Inr (take (3 * ?k) B)"
    by (simp add: b64decode_b64encode)
  from Base64Decoder_write_Inr [OF this] obtain self1 where
    w: "Base64Decoder_write self d = (self1, Inr (length (cache self) + length d))"
    and c: "cache self1 = drop (?k * 4) ?data"
    and f: "forwarded (underlying self1) = forwarded (underlying self) @ take (3 * ?k) B"
    and h: "has_finalize (underlying self1) = has_finalize (underlying self)"
    by blast
  have "cache self1 @ concat ds = drop (4 * ?k) (?data @ concat ds)"
    using le c by (simp add: mult.commute)
  also have "\<dots> = b64encode (drop (3 * ?k) B)"
    using Cons.prems(1) by (simp add: drop_b64encode)
  finally have 1: "cache self1 @ concat ds = b64encode (drop (3 * ?k) B)" .
  have 2: "length (cache self1) < 4"
    using c by (simp add: minus_mod_eq_mult_div [symmetric] mult.commute)
  from Cons.IH [OF 1 2] obtain self' where
    "Base64Decoder_writes self1 ds = Inr self'" "cache self' = []"
    "forwarded (underlying self') = forwarded (underlying self1) @ drop (3 * ?k) B"
    "has_finalize (underlying self') = has_finalize (underlying self1)"
    by blast
  then show ?case using w f h by simp
qed

section \<open>What one call does\<close>

lemma Base64Decoder_write_cases:
  assumes "Base64Decoder_write self data = (self', r)"
  shows "(r = Inl DecodeError \<and> self' = self
            \<and> (\<exists>e. b64decode (take (length (cache self @ data) div 4 * 4) (cache self @ data)) = Inl e))
       \<or> (r = Inr (length (cache self) + length data)
            \<and> cache self' = drop (length (cache self @ data) div 4 * 4) (cache self @ data)
            \<and> (\<exists>out. b64decode (take (length (cache self @ data) div 4 * 4) (cache self @ data)) = Inr out
                  \<and> forwarded (underlying self') = forwarded (underlying self) @ out))"
proof (cases "b64decode (take (length (cache self @ data) div 4 * 4) (cache self @ data))")
  case (Inl e)
  then show ?thesis using assms by (simp add: Base64Decoder_write_eq)
next
  case (Inr out)
  from Base64Decoder_write_Inr [OF Inr] assms Inr show ?thesis by auto
qed

lemma length_cache_after_write:
  assumes "Base64Decoder_write self data = (self', Inr n)"
  shows "length (cache self') = (length (cache self) + length data) mod 4"
  using Base64Decoder_write_cases [OF assms]
  by (simp add: minus_mod_eq_mult_div [symmetric] mult.commute)

lemma length_cache_after_writes:
  "Base64Decoder_writes self chunks = Inr self' \<Longrightarrow>
   length (cache self') mod 4 = (length (cache self) + length (concat chunks)) mod 4"
proof (induction chunks arbitrary: self)
  case Nil
  then show ?case by simp
next
  case (Cons d ds)
  then obtain self1 n where w: "Base64Decoder_write self d = (self1, Inr n)"
    and r: "Base64Decoder_writes self1 ds = Inr self'"
    by (auto split: prod.splits sum.splits)
  have "length (cache self') mod 4 = (length (cache self1) + length (concat ds)) mod 4"
    using Cons.IH [OF r] .
  also have "\<dots> = ((length (cache self) + length d) mod 4 + length (concat ds)) mod 4"
    using length_cache_after_write [OF w] by simp
  also have "\<dots> = (length (cache self) + length (concat (d # ds))) mod 4"
    by (simp add: mod_add_left_eq add.assoc)
  finally show ?case .
qed

lemma QuotedPrintableDecoder_write_eq:
  assumes "dd = cache self @ data"
  shows "QuotedPrintableDecoder_write self data =
     (if 61 \<in> set (drop (length dd - 2) dd)
      then (\<lparr>cache = drop (length dd - 2) dd,
             underlying = (if take (length dd - 2) dd = [] then underlying self
                           else sink_write (underlying self) (a2b_qp (take (length dd - 2) dd)))\<rparr>,
            length dd)
      else (\<lparr>cache = [],
             underlying = (if dd = [] then underlying self
                           else sink_write (underlying self) (a2b_qp dd))\<rparr>,
            length dd))"
proof -
  have d: "(if length (cache self) > 0 then cache self @ data else data) = dd"
    by (simp add: assms)
  show ?thesis
    unfolding QuotedPrintableDecoder_write_def d Let_def
    by (cases "take (length dd - 2) dd = []"; cases "dd = []") auto
qed

lemma QuotedPrintableDecoder_write_cache:
  "length (cache (fst (QuotedPrintableDecoder_write self data))) \<le> 2"
  "cache (fst (QuotedPrintableDecoder_write self data)) = []
     \<or> 61 \<in> set (cache (fst (QuotedPrintableDecoder_write self data)))"
proof -
  obtain dd where dd: "dd = cache self @ data" by simp
  have "length dd - (length dd - 2) \<le> 2" by arith
  then show "length (cache (fst (QuotedPrintableDecoder_write self data))) \<le> 2"
    by (simp add: QuotedPrintableDecoder_write_eq [OF dd])
  show "cache (fst (QuotedPrintableDecoder_write self data)) = []
     \<or> 61 \<in> set (cache (fst (QuotedPrintableDecoder_write self data)))"
    by (simp add: QuotedPrintableDecoder_write_eq [OF dd])
qed

lemma QuotedPrintableDecoder_write_length:
  "snd (QuotedPrintableDecoder_write self data) = length (cache self) + length data"
proof -
  obtain dd where dd: "dd = cache self @ data" by simp
  then have "length dd = length (cache self) + length data" by simp
  then show ?thesis by (simp add: QuotedPrintableDecoder_write_eq [OF dd])
qed

lemma a2b_loop_no_pad:
  assumes "BASE64_PAD \<notin> set s" and "q < 4"
  shows "(\<exists>e. a2b_loop q l p bin s = Inl e) \<longleftrightarrow> (q + length (filter b64_alphabet s)) mod 4 \<noteq> 0"
  using assms
proof (induction s arbitrary: q l p bin)
  case Nil
  then show ?case by auto
next
  case (Cons c s)
  then have c: "c \<noteq> BASE64_PAD" and s: "BASE64_PAD \<notin> set s" by auto
  show ?case
  proof (cases "table_a2b_base64 c \<ge> 64")
    case True
    then have "\<not> b64_alphabet c" by (simp add: b64_alphabet_def not_less)
    with True c Cons.IH [OF s Cons.prems(2)] show ?thesis by simp
  next
    case False
    then have a: "b64_alphabet c" using c by (simp add: b64_alphabet_def not_le)
    consider "q = 0" | "q = 1" | "q = 2" | "q = 3" using Cons.prems(2) by linarith
    then show ?thesis
    proof cases
      case 1
      with False c a Cons.IH [OF s, of 1] show ?thesis by simp
    next
      case 2
      with False c a Cons.IH [OF s, of 2] show ?thesis by simp
    next
      case 3
      with False c a Cons.IH [OF s, of 3] show ?thesis by simp
    next
      case 4
      with False c a Cons.IH [OF s, of 0] show ?thesis by simp
    qed
  qed
qed

lemma Base64Decoder_writes_cache_lt4:
  "Base64Decoder_writes self chunks = Inr self' \<Longrightarrow> length (cache self) < 4 \<Longrightarrow>
   length (cache self') < 4"
proof (induction chunks arbitrary: self)
  case Nil
  then show ?case by simp
next
  case (Cons d ds)
  then obtain self1 n where w: "Base64Decoder_write self d = (self1, Inr n)"
    and r: "Base64Decoder_writes self1 ds = Inr self'"
    by (auto split: prod.splits sum.splits)
  have "length (cache self1) < 4" using length_cache_after_write [OF w] by simp
  from Cons.IH [OF r this] show ?case .
qed

text \<open>Unfolding rules for evaluating the decoders on concrete bytes.\<close>

lemmas b64_eval = Base64Decoder_write_def Base64Decoder_init_def bytes_of_def b64decode_def
  table_a2b_base64_def BASE64_PAD_def new_sink_def sink_write_def
lemmas qp_eval = QuotedPrintableDecoder_stream_def QuotedPrintableDecoder_write_def
  QuotedPrintableDecoder_init_def QuotedPrintableDecoder_finalize_def bytes_of_def
  is_hex_def DigitValue_def new_sink_def sink_write_def sink_finalize_def forwarded_def Let_def

section \<open>Claims\<close>

text \<open>
  C1 (chunk invariance). For a fixed valid encoded stream the bytes forwarded to the sink
  should not depend on how the stream is cut into write calls. For Base64 this follows
  from the round trip below. The Quoted-Printable decoder breaks it: when \<open>=\<close> occurs
  in the last two bytes, \<open>data[:-2]\<close> is decoded at once, and it can end inside an
  earlier escape. The valid stream \<open>=C3=A9\<close> written whole forwards the two bytes
  C3 A9; written as \<open>=C3=\<close> then \<open>A9\<close> and finalized it forwards \<open>=C3\<close>
  followed by A9.
\<close>

theorem qp_split_inside_escape:
  "forwarded (underlying (QuotedPrintableDecoder_stream (QuotedPrintableDecoder_init (new_sink hf hc))
       [bytes_of ''=C3=A9''])) = [195, 169]
   \<and> forwarded (underlying (QuotedPrintableDecoder_stream (QuotedPrintableDecoder_init (new_sink hf hc))
       [bytes_of ''=C3='', bytes_of ''A9''])) = bytes_of ''=C3'' @ [169]"
  by (simp add: qp_eval)


text \<open>
  C2 (Base64 decode errors). As stated, a write call whose decodable prefix holds a byte
  outside the alphabet or misplaced padding would always fail. It does not:
  \<open>b64decode\<close> skips such bytes, so \<open>write(b"!!!!")\<close> forwards the empty
  bytes and returns 4, and \<open>write(b"=Zm9v===")\<close> forwards \<open>foo\<close>.
\<close>

theorem base64_invalid_input_accepted:
  "33 \<in> set (decodable_prefix (Base64Decoder_init (new_sink True False)) (bytes_of ''!!!!''))
   \<and> \<not> b64_alphabet 33 \<and> 33 \<noteq> BASE64_PAD
   \<and> Base64Decoder_write (Base64Decoder_init (new_sink True False)) (bytes_of ''!!!!'')
       = (\<lparr>cache = [], underlying = sink_write (new_sink True False) []\<rparr>, Inr 4)
   \<and> decodable_prefix (Base64Decoder_init (new_sink True False)) (bytes_of ''=Zm9v==='')
       = bytes_of ''=Zm9v===''
   \<and> Base64Decoder_write (Base64Decoder_init (new_sink True False)) (bytes_of ''=Zm9v==='')
       = (\<lparr>cache = [], underlying = sink_write (new_sink True False) (bytes_of ''foo'')\<rparr>, Inr 8)"
  by (simp add: b64_eval decodable_prefix_def b64_alphabet_def)

text \<open>
  C2, as the code has it: a write call fails with DecodeError exactly when
  \<open>b64decode\<close> rejects the decodable prefix; for a prefix without \<open>=\<close> that is
  exactly when the number of alphabet characters in it is not a multiple of four.
\<close>

theorem base64_write_error_iff:
  "(snd (Base64Decoder_write self data) = Inl DecodeError
      \<longleftrightarrow> (\<exists>e. b64decode (decodable_prefix self data) = Inl e))
   \<and> (BASE64_PAD \<notin> set (decodable_prefix self data) \<longrightarrow>
        (snd (Base64Decoder_write self data) = Inl DecodeError
           \<longleftrightarrow> length (filter b64_alphabet (decodable_prefix self data)) mod 4 \<noteq> 0))"
proof -
  have 1: "snd (Base64Decoder_write self data) = Inl DecodeError
      \<longleftrightarrow> (\<exists>e. b64decode (decodable_prefix self data) = Inl e)"
    unfolding decodable_prefix_def Base64Decoder_write_eq
    by (cases "b64decode (take (length (cache self @ data) div 4 * 4) (cache self @ data))") simp_all
  have 2: "(\<exists>e. b64decode (decodable_prefix self data) = Inl e)
      \<longleftrightarrow> length (filter b64_alphabet (decodable_prefix self data)) mod 4 \<noteq> 0"
    if "BASE64_PAD \<notin> set (decodable_prefix self data)"
    using a2b_loop_no_pad [OF that, of 0 0 0 "[]"] by (simp add: b64decode_def)
  show ?thesis using 1 2 by simp
qed

theorem base64_write_error_iff_witness:
  "BASE64_PAD \<notin> set (decodable_prefix (Base64Decoder_init (new_sink True False)) (bytes_of ''Zm9vYmF!''))
   \<and> length (filter b64_alphabet
        (decodable_prefix (Base64Decoder_init (new_sink True False)) (bytes_of ''Zm9vYmF!''))) mod 4 \<noteq> 0
   \<and> snd (Base64Decoder_write (Base64Decoder_init (new_sink True False)) (bytes_of ''Zm9vYmF!''))
       = Inl DecodeError"
proof -
  have p: "decodable_prefix (Base64Decoder_init (new_sink True False)) (bytes_of ''Zm9vYmF!'')
             = bytes_of ''Zm9vYmF!''"
    by (simp add: decodable_prefix_def Base64Decoder_init_def bytes_of_def)
  have h: "BASE64_PAD \<notin> set (decodable_prefix (Base64Decoder_init (new_sink True False)) (bytes_of ''Zm9vYmF!''))"
    unfolding p by (simp add: bytes_of_def BASE64_PAD_def)
  have m: "length (filter b64_alphabet
        (decodable_prefix (Base64Decoder_init (new_sink True False)) (bytes_of ''Zm9vYmF!''))) mod 4 \<noteq> 0"
    unfolding p by (simp add: bytes_of_def b64_alphabet_def BASE64_PAD_def table_a2b_base64_def)
  show ?thesis
    using h m base64_write_error_iff [of "Base64Decoder_init (new_sink True False)" "bytes_of ''Zm9vYmF!''"]
    by blast
qed

text \<open>
  C3 (round trip). For every byte sequence \<open>B\<close> and every list of chunks whose
  concatenation is the standard Base64 encoding of \<open>B\<close> (all at once, one byte at a
  time, or any other split, empty chunks included), writing the chunks to a fresh
  Base64Decoder and calling finalize raises nothing, and the bytes forwarded to the sink
  are exactly \<open>B\<close>, in order, \<open>length B\<close> of them.
\<close>

theorem base64_round_trip:
  assumes "concat chunks = b64encode B"
  shows "\<exists>self'. Base64Decoder_stream (Base64Decoder_init (new_sink hf hc)) chunks = Inr self'
     \<and> forwarded (underlying self') = B \<and> length (forwarded (underlying self')) = length B"
proof -
  let ?s = "Base64Decoder_init (new_sink hf hc)"
  have "cache ?s @ concat chunks = b64encode B" "length (cache ?s) < 4"
    using assms by (simp_all add: Base64Decoder_init_def)
  from Base64Decoder_writes_b64encode [OF this] obtain self' where
    w: "Base64Decoder_writes ?s chunks = Inr self'" and c: "cache self' = []"
    and f: "forwarded (underlying self') = forwarded (underlying ?s) @ B"
    by blast
  have "forwarded (underlying ?s) = []"
    by (simp add: Base64Decoder_init_def new_sink_def forwarded_def)
  with w c f show ?thesis
    by (auto simp: Base64Decoder_stream_def Base64Decoder_finalize_def forwarded_def sink_finalize_def)
qed

theorem base64_round_trip_witness:
  "concat [bytes_of ''Zm9'', bytes_of ''vYmFy''] = b64encode (bytes_of ''foobar'') \<and>
   (\<exists>self'. Base64Decoder_stream (Base64Decoder_init (new_sink True False))
               [bytes_of ''Zm9'', bytes_of ''vYmFy''] = Inr self'
     \<and> forwarded (underlying self') = bytes_of ''foobar''
     \<and> length (forwarded (underlying self')) = length (bytes_of ''foobar''))"
proof -
  have h: "concat [bytes_of ''Zm9'', bytes_of ''vYmFy''] = b64encode (bytes_of ''foobar'')"
    by (simp add: bytes_of_def b2a_def table_b2a_base64_def sextet_defs)
  show ?thesis
    using h base64_round_trip [OF h, of True False] by blast
qed

text \<open>
  C4 (cache bound). After every successful write call the Base64Decoder cache holds at
  most 3 bytes and the QuotedPrintableDecoder cache at most 2, whatever the decoder held
  before. The bound holds between all calls: a new decoder has an empty cache, and
  finalize and close never grow it.
\<close>

theorem cache_bound:
  "(Base64Decoder_write self data = (self', Inr n) \<longrightarrow> length (cache self') \<le> 3)
   \<and> length (cache (fst (QuotedPrintableDecoder_write self data))) \<le> 2
   \<and> cache (Base64Decoder_init u) = [] \<and> cache (QuotedPrintableDecoder_init u) = []
   \<and> cache (fst (Base64Decoder_finalize self)) = cache self
   \<and> cache (Base64Decoder_close self) = cache self
   \<and> cache (QuotedPrintableDecoder_finalize self) = []
   \<and> cache (QuotedPrintableDecoder_close self) = cache self"
proof -
  have 1: "Base64Decoder_write self data = (self', Inr n) \<longrightarrow> length (cache self') \<le> 3"
  proof
    assume "Base64Decoder_write self data = (self', Inr n)"
    from length_cache_after_write [OF this]
    have "length (cache self') < 4" by simp
    then show "length (cache self') \<le> 3" by simp
  qed
  have 2: "length (cache (fst (QuotedPrintableDecoder_write self data))) \<le> 2"
    by (rule QuotedPrintableDecoder_write_cache)
  have 3: "cache (Base64Decoder_init u) = [] \<and> cache (QuotedPrintableDecoder_init u) = []"
    by (simp add: Base64Decoder_init_def QuotedPrintableDecoder_init_def)
  have 4: "cache (fst (Base64Decoder_finalize self)) = cache self
      \<and> cache (Base64Decoder_close self) = cache self"
    by (simp add: Base64Decoder_finalize_def Base64Decoder_close_def)
  have 5: "cache (QuotedPrintableDecoder_finalize self) = []
      \<and> cache (QuotedPrintableDecoder_close self) = cache self"
    by (simp add: QuotedPrintableDecoder_finalize_def QuotedPrintableDecoder_close_def Let_def)
  show ?thesis using 1 2 3 4 5 by simp
qed

theorem cache_bound_witness:
  "Base64Decoder_write (Base64Decoder_init (new_sink True False)) (bytes_of ''Zm9vYmE'')
     = (\<lparr>cache = bytes_of ''YmE'', underlying = sink_write (new_sink True False) (bytes_of ''foo'')\<rparr>, Inr 7)
   \<and> length (cache \<lparr>cache = bytes_of ''YmE'', underlying = sink_write (new_sink True False) (bytes_of ''foo'')\<rparr>) \<le> 3"
proof -
  have h: "Base64Decoder_write (Base64Decoder_init (new_sink True False)) (bytes_of ''Zm9vYmE'')
     = (\<lparr>cache = bytes_of ''YmE'', underlying = sink_write (new_sink True False) (bytes_of ''foo'')\<rparr>, Inr 7)"
    by (simp add: b64_eval)
  show ?thesis
    using h cache_bound [of "Base64Decoder_init (new_sink True False)" "bytes_of ''Zm9vYmE''"
        "\<lparr>cache = bytes_of ''YmE'', underlying = sink_write (new_sink True False) (bytes_of ''foo'')\<rparr>" 7]
    by blast
qed

text \<open>
  C5 (Base64 finalize strictness). \<open>finalize\<close> raises DecodeError if and only if the
  cache is non-empty; after successful writes to a new decoder that is if and only if the
  total input length is not a multiple of 4. With an empty cache it succeeds, and
  forwards \<open>finalize\<close> to the sink exactly when the sink has that method.
\<close>

theorem finalize_strictness:
  "(snd (Base64Decoder_finalize self) = Inl DecodeError \<longleftrightarrow> cache self \<noteq> [])
   \<and> (Base64Decoder_writes (Base64Decoder_init u) chunks = Inr self' \<longrightarrow>
        (snd (Base64Decoder_finalize self') = Inl DecodeError \<longleftrightarrow> length (concat chunks) mod 4 \<noteq> 0))
   \<and> (cache self = [] \<longrightarrow>
        Base64Decoder_finalize self =
          (if has_finalize (underlying self)
           then (self\<lparr>underlying := sink_finalize (underlying self)\<rparr>, Inr ())
           else (self, Inr ())))"
proof -
  have 1: "snd (Base64Decoder_finalize s) = Inl DecodeError \<longleftrightarrow> cache s \<noteq> []" for s
    by (simp add: Base64Decoder_finalize_def)
  have 2: "cache self' \<noteq> [] \<longleftrightarrow> length (concat chunks) mod 4 \<noteq> 0"
    if w: "Base64Decoder_writes (Base64Decoder_init u) chunks = Inr self'"
  proof -
    have "length (cache self') mod 4 = length (concat chunks) mod 4"
      using length_cache_after_writes [OF w] by (simp add: Base64Decoder_init_def)
    moreover have "length (cache self') < 4"
      using Base64Decoder_writes_cache_lt4 [OF w] by (simp add: Base64Decoder_init_def)
    ultimately have "length (cache self') = length (concat chunks) mod 4" by simp
    then show ?thesis by (cases "cache self'") auto
  qed
  have 3: "cache self = [] \<longrightarrow>
        Base64Decoder_finalize self =
          (if has_finalize (underlying self)
           then (self\<lparr>underlying := sink_finalize (underlying self)\<rparr>, Inr ())
           else (self, Inr ()))"
    by (simp add: Base64Decoder_finalize_def)
  show ?thesis using 1 2 3 by blast
qed

theorem finalize_strictness_witness:
  "Base64Decoder_writes (Base64Decoder_init (new_sink True False)) [bytes_of ''Zm9v'', bytes_of ''Ym'']
     = Inr \<lparr>cache = bytes_of ''Ym'', underlying = sink_write (new_sink True False) (bytes_of ''foo'')\<rparr>
   \<and> length (concat [bytes_of ''Zm9v'', bytes_of ''Ym'']) mod 4 \<noteq> 0
   \<and> snd (Base64Decoder_finalize
            \<lparr>cache = bytes_of ''Ym'', underlying = sink_write (new_sink True False) (bytes_of ''foo'')\<rparr>)
       = Inl DecodeError"
proof -
  have h: "Base64Decoder_writes (Base64Decoder_init (new_sink True False)) [bytes_of ''Zm9v'', bytes_of ''Ym'']
     = Inr \<lparr>cache = bytes_of ''Ym'', underlying = sink_write (new_sink True False) (bytes_of ''foo'')\<rparr>"
    by (simp add: b64_eval)
  have m: "length (concat [bytes_of ''Zm9v'', bytes_of ''Ym'']) mod 4 \<noteq> 0"
    by (simp add: bytes_of_def)
  show ?thesis
    using h m finalize_strictness [of
        "\<lparr>cache = bytes_of ''Ym'', underlying = sink_write (new_sink True False) (bytes_of ''foo'')\<rparr>"
        "new_sink True False" "[bytes_of ''Zm9v'', bytes_of ''Ym'']"
        "\<lparr>cache = bytes_of ''Ym'', underlying = sink_write (new_sink True False) (bytes_of ''foo'')\<rparr>"]
    by blast
qed

text \<open>
  C6 (error atomicity of Base64 write). A write call that raises DecodeError forwards
  nothing to the sink and leaves the cache exactly as it was before the call.
\<close>

theorem write_error_atomic:
  assumes "Base64Decoder_write self data = (self', Inl e)"
  shows "underlying self' = underlying self \<and> cache self' = cache self"
  using Base64Decoder_write_cases [OF assms] by auto


theorem write_error_atomic_witness:
  "Base64Decoder_write \<lparr>cache = bytes_of ''Zm9'', underlying = new_sink True False\<rparr> (bytes_of ''vYmF!'')
     = (\<lparr>cache = bytes_of ''Zm9'', underlying = new_sink True False\<rparr>, Inl DecodeError)
   \<and> underlying \<lparr>cache = bytes_of ''Zm9'', underlying = new_sink True False\<rparr> = new_sink True False
   \<and> cache \<lparr>cache = bytes_of ''Zm9'', underlying = new_sink True False\<rparr> = bytes_of ''Zm9''"
proof -
  have h: "Base64Decoder_write \<lparr>cache = bytes_of ''Zm9'', underlying = new_sink True False\<rparr> (bytes_of ''vYmF!'')
     = (\<lparr>cache = bytes_of ''Zm9'', underlying = new_sink True False\<rparr>, Inl DecodeError)"
    by (simp add: b64_eval)
  show ?thesis
    using h write_error_atomic [OF h] by simp
qed

text \<open>
  C7 (write return value). Every successful write call, on either decoder, returns the
  length of the previously cached bytes plus the length of the newly supplied bytes.
\<close>

theorem write_return_value:
  "(Base64Decoder_write self data = (self', Inr n) \<longrightarrow> n = length (cache self) + length data)
   \<and> snd (QuotedPrintableDecoder_write self data) = length (cache self) + length data"
proof
  show "Base64Decoder_write self data = (self', Inr n) \<longrightarrow> n = length (cache self) + length data"
    using Base64Decoder_write_cases [of self data self' "Inr n"] by auto
  show "snd (QuotedPrintableDecoder_write self data) = length (cache self) + length data"
    by (rule QuotedPrintableDecoder_write_length)
qed

theorem write_return_value_witness:
  "Base64Decoder_write \<lparr>cache = bytes_of ''Zm9'', underlying = new_sink True False\<rparr> (bytes_of ''vYmFy'')
     = (\<lparr>cache = [], underlying = sink_write (new_sink True False) (bytes_of ''foobar'')\<rparr>, Inr 8)
   \<and> (8::nat) = length (cache \<lparr>cache = bytes_of ''Zm9'', underlying = new_sink True False\<rparr>)
                  + length (bytes_of ''vYmFy'')"
proof -
  have h: "Base64Decoder_write \<lparr>cache = bytes_of ''Zm9'', underlying = new_sink True False\<rparr> (bytes_of ''vYmFy'')
     = (\<lparr>cache = [], underlying = sink_write (new_sink True False) (bytes_of ''foobar'')\<rparr>, Inr 8)"
    by (simp add: b64_eval)
  show ?thesis
    using h write_return_value [of "\<lparr>cache = bytes_of ''Zm9'', underlying = new_sink True False\<rparr>"
        "bytes_of ''vYmFy''" "\<lparr>cache = [], underlying = sink_write (new_sink True False) (bytes_of ''foobar'')\<rparr>" 8]
    by blast
qed

text \<open>
  C8 (Base64 split scenario). As stated, after \<open>write(b"Zm9")\<close> the call
  \<open>write(b"vYmFy")\<close> would return 5. It returns 8: \<open>write\<close> returns the
  length of the cache-prefixed data, as its docstring says.
\<close>

theorem base64_split_returns_8:
  "snd (Base64Decoder_write
         (fst (Base64Decoder_write (Base64Decoder_init (new_sink True False)) (bytes_of ''Zm9'')))
         (bytes_of ''vYmFy'')) \<noteq> Inr 5"
  by (simp add: b64_eval)

text \<open>
  C8, as the code has it: on a new Base64Decoder \<open>write(b"Zm9")\<close> forwards
  nothing, returns 3 and leaves the cache \<open>b"Zm9"\<close>; the following
  \<open>write(b"vYmFy")\<close> forwards \<open>b"foobar"\<close>, empties the cache and returns 8.
\<close>

theorem base64_split_scenario:
  "Base64Decoder_write (Base64Decoder_init u) (bytes_of ''Zm9'')
     = (\<lparr>cache = bytes_of ''Zm9'', underlying = u\<rparr>, Inr 3)
   \<and> Base64Decoder_write \<lparr>cache = bytes_of ''Zm9'', underlying = u\<rparr> (bytes_of ''vYmFy'')
     = (\<lparr>cache = [], underlying = sink_write u (bytes_of ''foobar'')\<rparr>, Inr 8)"
  by (simp add: Base64Decoder_write_def Base64Decoder_init_def bytes_of_def b64decode_def
      table_a2b_base64_def BASE64_PAD_def)

text \<open>
  C9 (soft line break). On a new QuotedPrintableDecoder, \<open>write(b"A=\r\n")\<close>, then
  \<open>write(b"B")\<close>, then \<open>finalize()\<close>: the sink receives \<open>b"A"\<close> and then
  \<open>b"B"\<close>, and no \<open>=\<close>, carriage return or line feed reaches it.
\<close>

theorem soft_line_break:
  "written (underlying (QuotedPrintableDecoder_stream (QuotedPrintableDecoder_init (new_sink hf hc))
       [bytes_of ''A='' @ [13, 10], bytes_of ''B''])) = [bytes_of ''A'', bytes_of ''B'']
   \<and> forwarded (underlying (QuotedPrintableDecoder_stream (QuotedPrintableDecoder_init (new_sink hf hc))
       [bytes_of ''A='' @ [13, 10], bytes_of ''B''])) = bytes_of ''AB''
   \<and> 61 \<notin> set (forwarded (underlying (QuotedPrintableDecoder_stream
       (QuotedPrintableDecoder_init (new_sink hf hc)) [bytes_of ''A='' @ [13, 10], bytes_of ''B''])))
   \<and> 13 \<notin> set (forwarded (underlying (QuotedPrintableDecoder_stream
       (QuotedPrintableDecoder_init (new_sink hf hc)) [bytes_of ''A='' @ [13, 10], bytes_of ''B''])))
   \<and> 10 \<notin> set (forwarded (underlying (QuotedPrintableDecoder_stream
       (QuotedPrintableDecoder_init (new_sink hf hc)) [bytes_of ''A='' @ [13, 10], bytes_of ''B''])))"
  by (simp add: qp_eval)

text \<open>
  C10 (shape of the Quoted-Printable cache). After every write call the cache is empty
  or contains \<open>=\<close>. When the last two bytes of the cache-prefixed buffer contain no
  \<open>=\<close>, the cache becomes empty and the whole buffer is decoded and forwarded, in one
  sink write unless the buffer is empty.
\<close>

theorem qp_cache_shape:
  "(cache (fst (QuotedPrintableDecoder_write self data)) = []
      \<or> 61 \<in> set (cache (fst (QuotedPrintableDecoder_write self data))))
   \<and> (61 \<notin> set (drop (length (cache self @ data) - 2) (cache self @ data)) \<longrightarrow>
        cache (fst (QuotedPrintableDecoder_write self data)) = []
        \<and> forwarded (underlying (fst (QuotedPrintableDecoder_write self data)))
            = forwarded (underlying self) @ a2b_qp (cache self @ data)
        \<and> (cache self @ data \<noteq> [] \<longrightarrow>
             written (underlying (fst (QuotedPrintableDecoder_write self data)))
               = written (underlying self) @ [a2b_qp (cache self @ data)]))"
proof -
  obtain dd where dd: "dd = cache self @ data" by simp
  have "61 \<notin> set (drop (length dd - 2) dd) \<longrightarrow>
        cache (fst (QuotedPrintableDecoder_write self data)) = []
        \<and> forwarded (underlying (fst (QuotedPrintableDecoder_write self data)))
            = forwarded (underlying self) @ a2b_qp dd
        \<and> (dd \<noteq> [] \<longrightarrow>
             written (underlying (fst (QuotedPrintableDecoder_write self data)))
               = written (underlying self) @ [a2b_qp dd])"
    by (simp add: QuotedPrintableDecoder_write_eq [OF dd] forwarded_def sink_write_def)
  then show ?thesis
    using QuotedPrintableDecoder_write_cache(2) [of self data] unfolding dd by blast
qed


theorem qp_cache_shape_witness:
  "61 \<notin> set (drop (length (cache \<lparr>cache = bytes_of ''3='', underlying = new_sink True False\<rparr> @ bytes_of ''A9'') - 2)
                (cache \<lparr>cache = bytes_of ''3='', underlying = new_sink True False\<rparr> @ bytes_of ''A9''))
   \<and> cache (fst (QuotedPrintableDecoder_write \<lparr>cache = bytes_of ''3='', underlying = new_sink True False\<rparr>
                   (bytes_of ''A9''))) = []
   \<and> forwarded (underlying (fst (QuotedPrintableDecoder_write
                   \<lparr>cache = bytes_of ''3='', underlying = new_sink True False\<rparr> (bytes_of ''A9''))))
       = [51, 169]"
proof -
  have h: "61 \<notin> set (drop (length (cache \<lparr>cache = bytes_of ''3='', underlying = new_sink True False\<rparr> @ bytes_of ''A9'') - 2)
                (cache \<lparr>cache = bytes_of ''3='', underlying = new_sink True False\<rparr> @ bytes_of ''A9''))"
    by (simp add: bytes_of_def)
  have a: "forwarded (underlying \<lparr>cache = bytes_of ''3='', underlying = new_sink True False\<rparr>)
             @ a2b_qp (cache \<lparr>cache = bytes_of ''3='', underlying = new_sink True False\<rparr> @ bytes_of ''A9'')
           = [51, 169]"
    by (simp add: qp_eval)
  show ?thesis
    using h a qp_cache_shape [of "\<lparr>cache = bytes_of ''3='', underlying = new_sink True False\<rparr>" "bytes_of ''A9''"]
    by simp
qed

end
